theory Spec2Isabelle
  imports Complex_Main
begin

section \<open>The detection pipeline of predict.py\<close>

text \<open>
  The program is a driver over four external services: the weights loader and the
  detection model, the HTTP client, the file system with the image decoder, and an
  SQLite connection.  Each external call is written out as a function on an explicit
  \<open>world\<close>: the call is appended to the world's \<open>trace\<close>, the environment
  may refuse it with an exception, and otherwise it has its documented effect.  An
  exception of the Python code is the \<open>Inl\<close> alternative of a result; the world is
  returned in both alternatives, since the effects made before a \<open>raise\<close> stay.
  The \<open>logging\<close> calls write to the log stream only and are left out; an
  \<open>except Exception as e: logging.error(...); raise\<close> handler therefore passes the
  exception on unchanged.
\<close>

subsection \<open>Values\<close>

type_synonym bytes = string
type_synonym img = bytes

datatype exn =
    ValueError
  | FileNotFoundError
  | FileExistsError
  | IsADirectoryError
  | ProgrammingError
  | OperationalError
  | EnvError string

text \<open>The seven parameters of the \<open>INSERT\<close> statement, in the statement's order.\<close>

record detection_record =
  image_name :: string
  label :: string
  confidence :: real
  x_center :: real
  y_center :: real
  width :: real
  height :: real

text \<open>The dictionary that \<open>detect_objects_in_images\<close> appends for one image.\<close>

record detection =
  image :: string
  boxes :: "real list list"
  labels :: "string list"
  confidences :: "real list"

text \<open>
  A detection capability, the \<open>model\<close> argument: it is called on what
  \<open>cv2.imread\<close> returned (\<open>None\<close> for a file that could not be decoded).  Its
  value stands for the three lists that lines 60 to 62 read off the returned object;
  an exception of the call or of one of the three reads is the \<open>Inl\<close> alternative.
\<close>

record results =
  xywh0 :: "real list list"
  names0 :: "string list"
  conf0 :: "real list"

type_synonym model = "img option \<Rightarrow> exn + results"

subsection \<open>The world\<close>

datatype statement =
    CreateTableIfNotExists
  | InsertDetection detection_record

datatype event =
    Connect string
  | LoadWeights string
  | Makedirs string
  | HttpGet string
  | OpenWrite string
  | WriteBytes string bytes
  | Glob string
  | Imread string
  | Infer "img option"
  | Execute statement
  | Commit
  | Rollback
  | Close

datatype node = File bytes | Dir

text \<open>
  A table of the database: the largest row id handed out so far (the
  \<open>AUTOINCREMENT\<close> counter) and the rows, each with its id.
\<close>

record table =
  seq :: nat
  rows :: "(nat \<times> detection_record) list"

type_synonym db = "string \<Rightarrow> table option"

text \<open>
  \<open>fs\<close> lists the paths that exist, in the order the directory enumeration yields
  them.  \<open>database\<close> is the committed content of the database file, \<open>txn\<close> the
  uncommitted content while the connection has a transaction open, and
  \<open>conn_open\<close> says whether the connection handle is open.
\<close>

record world =
  fs :: "(string \<times> node) list"
  conn_open :: bool
  database :: db
  txn :: "db option"
  trace :: "event list"

text \<open>
  The environment: \<open>fault\<close> decides, from the calls made so far and the call being
  made, whether the outside world refuses the call (network down, disk full, database
  locked, weights file missing); the other fields give what a call that is not refused
  returns.
\<close>

record env =
  fault :: "event list \<Rightarrow> event \<Rightarrow> exn option"
  weights :: "string \<Rightarrow> model"
  content :: "string \<Rightarrow> bytes"
  imdecode :: "bytes \<Rightarrow> img option"

definition attempt :: "env \<Rightarrow> event \<Rightarrow> world \<Rightarrow> exn option \<times> world" where
  "attempt E ev w = (fault E (trace w) ev, w\<lparr>trace := trace w @ [ev]\<rparr>)"

subsection \<open>The SQLite connection\<close>

definition tn :: string where
  "tn = ''object_detections''"

definition view :: "world \<Rightarrow> db" where
  "view w = (case txn w of Some d \<Rightarrow> d | None \<Rightarrow> database w)"

text \<open>
  The two statements of the program.  \<open>CREATE TABLE IF NOT EXISTS\<close> leaves an
  existing table alone; the \<open>INSERT\<close> needs the table and gives the row the next id.
\<close>

fun apply_statement :: "statement \<Rightarrow> db \<Rightarrow> exn + db" where
  "apply_statement CreateTableIfNotExists d =
     (case d tn of
        Some t \<Rightarrow> Inr d
      | None \<Rightarrow> Inr (d(tn \<mapsto> \<lparr>seq = 0, rows = []\<rparr>)))"
| "apply_statement (InsertDetection r) d =
     (case d tn of
        None \<Rightarrow> Inl OperationalError
      | Some t \<Rightarrow> Inr (d(tn \<mapsto> \<lparr>seq = Suc (seq t), rows = rows t @ [(Suc (seq t), r)]\<rparr>)))"

text \<open>
  \<open>connection.execute\<close> under the module's default transaction control: an
  \<open>INSERT\<close> opens a transaction when none is open, a \<open>CREATE TABLE\<close> does not and
  is durable at once unless a transaction is already open.  A closed connection raises
  \<open>ProgrammingError\<close>.
\<close>

fun opens_transaction :: "statement \<Rightarrow> bool" where
  "opens_transaction CreateTableIfNotExists = False"
| "opens_transaction (InsertDetection r) = True"

definition conn_execute :: "env \<Rightarrow> statement \<Rightarrow> world \<Rightarrow> (exn + unit) \<times> world" where
  "conn_execute E s w =
     (case attempt E (Execute s) w of
        (Some e, w1) \<Rightarrow> (Inl e, w1)
      | (None, w1) \<Rightarrow>
          if \<not> conn_open w1 then (Inl ProgrammingError, w1)
          else (case apply_statement s (view w1) of
                  Inl e \<Rightarrow> (Inl e, w1)
                | Inr d \<Rightarrow>
                    if opens_transaction s \<or> txn w1 \<noteq> None
                    then (Inr (), w1\<lparr>txn := Some d\<rparr>)
                    else (Inr (), w1\<lparr>database := d\<rparr>)))"

text \<open>
  Leaving \<open>with connection:\<close>.  Without an exception the open transaction is
  committed; a commit that fails is rolled back and its exception raised.  With an
  exception in flight the open transaction is rolled back.  On a closed connection
  either way raises \<open>ProgrammingError\<close>, which then replaces the exception in flight.
\<close>

definition conn_rollback :: "world \<Rightarrow> exn option \<times> world" where
  "conn_rollback w =
     (if \<not> conn_open w then (Some ProgrammingError, w)
      else (case txn w of
              None \<Rightarrow> (None, w)
            | Some d \<Rightarrow> (None, w\<lparr>txn := None, trace := trace w @ [Rollback]\<rparr>)))"

definition conn_commit :: "env \<Rightarrow> world \<Rightarrow> (exn + unit) \<times> world" where
  "conn_commit E w =
     (if \<not> conn_open w then (Inl ProgrammingError, w)
      else (case txn w of
              None \<Rightarrow> (Inr (), w)
            | Some d \<Rightarrow>
                (case attempt E Commit w of
                   (Some e, w1) \<Rightarrow> (Inl e, snd (conn_rollback w1))
                 | (None, w1) \<Rightarrow> (Inr (), w1\<lparr>database := d, txn := None\<rparr>))))"

definition exit_raising :: "exn \<Rightarrow> world \<Rightarrow> (exn + unit) \<times> world" where
  "exit_raising e w =
     (case conn_rollback w of
        (Some e', w1) \<Rightarrow> (Inl e', w1)
      | (None, w1) \<Rightarrow> (Inl e, w1))"

definition sqlite3_connect :: "env \<Rightarrow> string \<Rightarrow> world \<Rightarrow> (exn + unit) \<times> world" where
  "sqlite3_connect E path w =
     (case attempt E (Connect path) w of
        (Some e, w1) \<Rightarrow> (Inl e, w1)
      | (None, w1) \<Rightarrow> (Inr (), w1\<lparr>conn_open := True, txn := None\<rparr>))"

definition conn_close :: "world \<Rightarrow> world" where
  "conn_close w = w\<lparr>conn_open := False, txn := None, trace := trace w @ [Close]\<rparr>"

subsection \<open>store_detection_results\<close>

text \<open>
  Line 86, \<open>x_center, y_center, width, height = box[:4]\<close>, raises
  \<open>ValueError\<close> on a box of fewer than four numbers; lines 89 to 97 build the
  parameter tuple.  \<open>record_of\<close> is \<open>None\<close> where the unpacking raises.
\<close>

definition record_of :: "string \<Rightarrow> real list \<times> string \<times> real \<Rightarrow> detection_record option" where
  "record_of im t =
     (case t of (box, lab, c) \<Rightarrow>
        (case take 4 box of
           [x, y, wd, h] \<Rightarrow>
             Some \<lparr>image_name = im, label = lab, confidence = c,
                   x_center = x, y_center = y, width = wd, height = h\<rparr>
         | _ \<Rightarrow> None))"

text \<open>The inner loop, over \<open>zip(boxes, labels, confidences)\<close> of one detection.\<close>

fun store_rows :: "env \<Rightarrow> string \<Rightarrow> (real list \<times> string \<times> real) list \<Rightarrow> world \<Rightarrow> (exn + unit) \<times> world" where
  "store_rows E im [] w = (Inr (), w)"
| "store_rows E im (t # ts) w =
     (case record_of im t of
        None \<Rightarrow> (Inl ValueError, w)
      | Some r \<Rightarrow>
          (case conn_execute E (InsertDetection r) w of
             (Inl e, w1) \<Rightarrow> (Inl e, w1)
           | (Inr u, w1) \<Rightarrow> store_rows E im ts w1))"

definition triples :: "detection \<Rightarrow> (real list \<times> string \<times> real) list" where
  "triples g = zip (boxes g) (zip (labels g) (confidences g))"

text \<open>The outer loop, over the detections.\<close>

fun store_groups :: "env \<Rightarrow> detection list \<Rightarrow> world \<Rightarrow> (exn + unit) \<times> world" where
  "store_groups E [] w = (Inr (), w)"
| "store_groups E (g # gs) w =
     (case store_rows E (image g) (triples g) w of
        (Inl e, w1) \<Rightarrow> (Inl e, w1)
      | (Inr u, w1) \<Rightarrow> store_groups E gs w1)"

definition store_detection_results :: "env \<Rightarrow> detection list \<Rightarrow> world \<Rightarrow> (exn + unit) \<times> world" where
  "store_detection_results E detections w =
     (case store_groups E detections w of
        (Inl e, w1) \<Rightarrow> exit_raising e w1
      | (Inr u, w1) \<Rightarrow> conn_commit E w1)"

subsection \<open>create_database_table\<close>

definition create_database_table :: "env \<Rightarrow> world \<Rightarrow> (exn + unit) \<times> world" where
  "create_database_table E w =
     (case conn_execute E CreateTableIfNotExists w of
        (Inl e, w1) \<Rightarrow> exit_raising e w1
      | (Inr u, w1) \<Rightarrow> conn_commit E w1)"

subsection \<open>setup_yolo_model\<close>

definition setup_yolo_model :: "env \<Rightarrow> string \<Rightarrow> world \<Rightarrow> (exn + model) \<times> world" where
  "setup_yolo_model E model_path w =
     (case attempt E (LoadWeights model_path) w of
        (Some e, w1) \<Rightarrow> (Inl e, w1)
      | (None, w1) \<Rightarrow> (Inr (weights E model_path), w1))"

subsection \<open>The file system and the network\<close>

text \<open>\<open>os.path.join\<close> of two components, as \<open>posixpath\<close> defines it.\<close>

definition path_join :: "string \<Rightarrow> string \<Rightarrow> string" where
  "path_join a b =
     (if take 1 b = ''/'' then b
      else if a = [] \<or> last a = CHR ''/'' then a @ b
      else a @ ''/'' @ b)"

text \<open>The decimal digits that an f-string prints for a non-negative integer.\<close>

definition digit :: "nat \<Rightarrow> char" where
  "digit n = ''0123456789'' ! (n mod 10)"

function str_nat :: "nat \<Rightarrow> string" where
  "str_nat n = (if n < 10 then [digit n] else str_nat (n div 10) @ [digit n])"
  by pat_completeness auto
termination
  by (relation "measure id") auto

declare str_nat.simps [simp del]

fun upsert :: "'k \<Rightarrow> 'v \<Rightarrow> ('k \<times> 'v) list \<Rightarrow> ('k \<times> 'v) list" where
  "upsert k v [] = [(k, v)]"
| "upsert k v (x # xs) = (if fst x = k then (k, v) # xs else x # upsert k v xs)"

text \<open>
  \<open>os.makedirs(d, exist_ok=True)\<close>: nothing happens when the directory exists;
  a file of that name raises \<open>FileExistsError\<close>, the empty path
  \<open>FileNotFoundError\<close>.
\<close>

definition os_makedirs :: "env \<Rightarrow> string \<Rightarrow> world \<Rightarrow> (exn + unit) \<times> world" where
  "os_makedirs E d w =
     (case attempt E (Makedirs d) w of
        (Some e, w1) \<Rightarrow> (Inl e, w1)
      | (None, w1) \<Rightarrow>
          if d = [] then (Inl FileNotFoundError, w1)
          else (case map_of (fs w1) d of
                  Some Dir \<Rightarrow> (Inr (), w1)
                | Some (File b) \<Rightarrow> (Inl FileExistsError, w1)
                | None \<Rightarrow> (Inr (), w1\<lparr>fs := fs w1 @ [(d, Dir)]\<rparr>)))"

text \<open>
  \<open>open(path, "wb")\<close> creates the file or empties it, and \<open>f.write(data)\<close> sets
  its content.  The directory of the path was made by line 30 just before, so the
  parent is not looked up again.
\<close>

definition open_wb :: "env \<Rightarrow> string \<Rightarrow> world \<Rightarrow> (exn + unit) \<times> world" where
  "open_wb E p w =
     (case attempt E (OpenWrite p) w of
        (Some e, w1) \<Rightarrow> (Inl e, w1)
      | (None, w1) \<Rightarrow>
          (case map_of (fs w1) p of
             Some Dir \<Rightarrow> (Inl IsADirectoryError, w1)
           | _ \<Rightarrow> (Inr (), w1\<lparr>fs := upsert p (File []) (fs w1)\<rparr>)))"

definition file_write :: "env \<Rightarrow> string \<Rightarrow> bytes \<Rightarrow> world \<Rightarrow> (exn + unit) \<times> world" where
  "file_write E p data w =
     (case attempt E (WriteBytes p data) w of
        (Some e, w1) \<Rightarrow> (Inl e, w1)
      | (None, w1) \<Rightarrow> (Inr (), w1\<lparr>fs := upsert p (File data) (fs w1)\<rparr>))"

text \<open>\<open>requests.get(url).content\<close>: the body of the response, whatever its status.\<close>

definition requests_get :: "env \<Rightarrow> string \<Rightarrow> world \<Rightarrow> (exn + bytes) \<times> world" where
  "requests_get E url w =
     (case attempt E (HttpGet url) w of
        (Some e, w1) \<Rightarrow> (Inl e, w1)
      | (None, w1) \<Rightarrow> (Inr (content E url), w1))"

subsection \<open>download_images_from_telegram\<close>

definition image_file :: "nat \<Rightarrow> string" where
  "image_file i = ''image_'' @ str_nat i @ ''.jpg''"

fun download_loop :: "env \<Rightarrow> string \<Rightarrow> string \<Rightarrow> nat list \<Rightarrow> world \<Rightarrow> (exn + unit) \<times> world" where
  "download_loop E channel_url download_dir [] w = (Inr (), w)"
| "download_loop E channel_url download_dir (i # is) w =
     (case requests_get E (channel_url @ ''/'' @ image_file i) w of
        (Inl e, w1) \<Rightarrow> (Inl e, w1)
      | (Inr image_data, w1) \<Rightarrow>
          (case open_wb E (path_join download_dir (image_file i)) w1 of
             (Inl e, w2) \<Rightarrow> (Inl e, w2)
           | (Inr u, w2) \<Rightarrow>
               (case file_write E (path_join download_dir (image_file i)) image_data w2 of
                  (Inl e, w3) \<Rightarrow> (Inl e, w3)
                | (Inr v, w3) \<Rightarrow> download_loop E channel_url download_dir is w3)))"

definition download_images_from_telegram ::
    "env \<Rightarrow> string \<Rightarrow> string \<Rightarrow> world \<Rightarrow> (exn + unit) \<times> world" where
  "download_images_from_telegram E channel_url download_dir w =
     (case os_makedirs E download_dir w of
        (Inl e, w1) \<Rightarrow> (Inl e, w1)
      | (Inr u, w1) \<Rightarrow> download_loop E channel_url download_dir [0..<5] w1)"

subsection \<open>detect_objects_in_images\<close>

text \<open>
  \<open>Path(d).glob("*.jpg")\<close>: the names directly under \<open>d\<close> that end in
  \<open>.jpg\<close>, files and directories alike, in enumeration order.
\<close>

definition child_name :: "string \<Rightarrow> string \<Rightarrow> string option" where
  "child_name d p =
     (let pre = path_join d [];
          n = drop (length pre) p
      in if take (length pre) p = pre \<and> n \<noteq> [] \<and> CHR ''/'' \<notin> set n then Some n else None)"

definition endswith :: "string \<Rightarrow> string \<Rightarrow> bool" where
  "endswith s suf = (length suf \<le> length s \<and> drop (length s - length suf) s = suf)"

definition glob_jpg :: "string \<Rightarrow> (string \<times> node) list \<Rightarrow> string list" where
  "glob_jpg d xs = filter (\<lambda>n. endswith n ''.jpg'') (List.map_filter (child_name d) (map fst xs))"

text \<open>
  \<open>cv2.imread\<close> does not raise on a file it cannot read or decode: it returns
  \<open>None\<close>.
\<close>

definition cv2_imread :: "env \<Rightarrow> string \<Rightarrow> world \<Rightarrow> img option \<times> world" where
  "cv2_imread E p w =
     (case attempt E (Imread p) w of
        (Some e, w1) \<Rightarrow> (None, w1)
      | (None, w1) \<Rightarrow>
          (case map_of (fs w1) p of
             Some (File b) \<Rightarrow> (imdecode E b, w1)
           | _ \<Rightarrow> (None, w1)))"

definition call_model :: "model \<Rightarrow> img option \<Rightarrow> world \<Rightarrow> (exn + results) \<times> world" where
  "call_model m im w = (m im, w\<lparr>trace := trace w @ [Infer im]\<rparr>)"

fun detect_loop ::
    "env \<Rightarrow> model \<Rightarrow> string \<Rightarrow> string list \<Rightarrow> detection list \<Rightarrow> world
       \<Rightarrow> (exn + detection list) \<times> world" where
  "detect_loop E m image_dir [] detections w = (Inr detections, w)"
| "detect_loop E m image_dir (n # ns) detections w =
     (case cv2_imread E (path_join image_dir n) w of
        (im, w1) \<Rightarrow>
          (case call_model m im w1 of
             (Inl e, w2) \<Rightarrow> (Inl e, w2)
           | (Inr res, w2) \<Rightarrow>
               detect_loop E m image_dir ns
                 (detections @
                    [\<lparr>image = n, boxes = xywh0 res, labels = names0 res,
                      confidences = conf0 res\<rparr>])
                 w2))"

definition detect_objects_in_images ::
    "env \<Rightarrow> model \<Rightarrow> string \<Rightarrow> world \<Rightarrow> (exn + detection list) \<times> world" where
  "detect_objects_in_images E m image_dir w =
     detect_loop E m image_dir (glob_jpg image_dir (fs w)) []
       (w\<lparr>trace := trace w @ [Glob image_dir]\<rparr>)"

subsection \<open>main\<close>

definition main :: "env \<Rightarrow> world \<Rightarrow> (exn + unit) \<times> world" where
  "main E w =
     (case sqlite3_connect E ''detections.db'' w of
        (Inl e, w1) \<Rightarrow> (Inl e, w1)
      | (Inr u1, w1) \<Rightarrow>
     (case setup_yolo_model E ''yolov5s.pt'' w1 of
        (Inl e, w2) \<Rightarrow> (Inl e, w2)
      | (Inr m, w2) \<Rightarrow>
     (case download_images_from_telegram E ''https://t.me/lobelia4cosmetics'' ''images'' w2 of
        (Inl e, w3) \<Rightarrow> (Inl e, w3)
      | (Inr u3, w3) \<Rightarrow>
     (case detect_objects_in_images E m ''images'' w3 of
        (Inl e, w4) \<Rightarrow> (Inl e, w4)
      | (Inr detections, w4) \<Rightarrow>
     (case create_database_table E w4 of
        (Inl e, w5) \<Rightarrow> (Inl e, w5)
      | (Inr u5, w5) \<Rightarrow>
     (case store_detection_results E detections w5 of
        (Inl e, w6) \<Rightarrow> (Inl e, w6)
      | (Inr u6, w6) \<Rightarrow> (Inr (), conn_close w6)))))))"

section \<open>Notions used in the statements\<close>

subsection \<open>What a call wrote and what it called\<close>

text \<open>The rows that a list of \<open>INSERT\<close>s adds, one after the other.\<close>

fun insert_all :: "detection_record list \<Rightarrow> db \<Rightarrow> exn + db" where
  "insert_all [] d = Inr d"
| "insert_all (r # rs) d =
     (case apply_statement (InsertDetection r) d of
        Inl e \<Rightarrow> Inl e
      | Inr d' \<Rightarrow> insert_all rs d')"

text \<open>
  The parameter tuples of a call of \<open>store_detection_results\<close>, in loop order;
  \<open>None\<close> marks a position whose box cannot be unpacked.
\<close>

definition planned :: "detection list \<Rightarrow> detection_record option list" where
  "planned ds = concat (map (\<lambda>g. map (record_of (image g)) (triples g)) ds)"

definition inserts :: "detection_record option list \<Rightarrow> event list" where
  "inserts ps = map (\<lambda>p. Execute (InsertDetection (the p))) ps"

text \<open>The calls made between two worlds of one run.\<close>

definition emitted :: "world \<Rightarrow> world \<Rightarrow> event list" where
  "emitted w w' = drop (length (trace w)) (trace w')"

text \<open>The URLs requested by a list of calls, in the order of the requests.\<close>

definition get_urls :: "event list \<Rightarrow> string list" where
  "get_urls evs = List.map_filter (\<lambda>ev. case ev of HttpGet u \<Rightarrow> Some u | _ \<Rightarrow> None) evs"

text \<open>
  The stage of the driver that makes a call: 0 the connection, 1 the model loader,
  2 the image fetcher, 3 the detector, 4 the result store, 5 the closing of the
  connection.
\<close>

fun stage :: "event \<Rightarrow> nat" where
  "stage (Connect p) = 0"
| "stage (LoadWeights p) = 1"
| "stage (Makedirs d) = 2"
| "stage (HttpGet u) = 2"
| "stage (OpenWrite p) = 2"
| "stage (WriteBytes p b) = 2"
| "stage (Glob d) = 3"
| "stage (Imread p) = 3"
| "stage (Infer im) = 3"
| "stage (Execute s) = 4"
| "stage Commit = 4"
| "stage Rollback = 4"
| "stage Close = 5"

text \<open>
  Between two worlds only calls of stage \<open>k\<close> were made; and: the calls made
  between two worlds are in stage order and of stage \<open>k\<close> at most.
\<close>

definition grows :: "nat \<Rightarrow> world \<Rightarrow> world \<Rightarrow> bool" where
  "grows k w w' = (\<exists>evs. trace w' = trace w @ evs \<and> (\<forall>ev \<in> set evs. stage ev = k))"

definition upto_stage :: "nat \<Rightarrow> world \<Rightarrow> world \<Rightarrow> bool" where
  "upto_stage k w w' =
     (\<exists>evs. trace w' = trace w @ evs \<and> sorted (map stage evs) \<and> (\<forall>ev \<in> set evs. stage ev \<le> k))"

text \<open>
  In the run of the driver from \<open>w\<close> the connection, the model loader and the image
  fetcher returned, the fetcher leaving the world \<open>w3\<close>; and: the detector returned
  as well, leaving \<open>w4\<close>.
\<close>

definition fetched :: "env \<Rightarrow> world \<Rightarrow> world \<Rightarrow> bool" where
  "fetched E w w3 =
     (\<exists>u1 w1 m w2 u3.
        sqlite3_connect E ''detections.db'' w = (Inr u1, w1) \<and>
        setup_yolo_model E ''yolov5s.pt'' w1 = (Inr m, w2) \<and>
        download_images_from_telegram E ''https://t.me/lobelia4cosmetics'' ''images'' w2
          = (Inr u3, w3))"

definition detected :: "env \<Rightarrow> world \<Rightarrow> world \<Rightarrow> bool" where
  "detected E w w4 =
     (\<exists>u1 w1 m w2 u3 w3 detections.
        sqlite3_connect E ''detections.db'' w = (Inr u1, w1) \<and>
        setup_yolo_model E ''yolov5s.pt'' w1 = (Inr m, w2) \<and>
        download_images_from_telegram E ''https://t.me/lobelia4cosmetics'' ''images'' w2
          = (Inr u3, w3) \<and>
        detect_objects_in_images E m ''images'' w3 = (Inr detections, w4))"

text \<open>The database engine refuses no statement and no commit.\<close>

definition db_accepts :: "env \<Rightarrow> bool" where
  "db_accepts E = (\<forall>h. fault E h Commit = None \<and> (\<forall>s. fault E h (Execute s) = None))"

subsection \<open>The rows a detection stands for\<close>

text \<open>
  The number of positions that \<open>zip\<close> pairs up in one detection, and the row of
  position \<open>j\<close>: the image's name, the \<open>j\<close>-th label and confidence, and the first
  four numbers of the \<open>j\<close>-th box.
\<close>

definition zipped :: "detection \<Rightarrow> nat" where
  "zipped g = min (length (boxes g)) (min (length (labels g)) (length (confidences g)))"

definition row_at :: "detection \<Rightarrow> nat \<Rightarrow> detection_record" where
  "row_at g j =
     \<lparr>image_name = image g, label = labels g ! j, confidence = confidences g ! j,
      x_center = boxes g ! j ! 0, y_center = boxes g ! j ! 1,
      width = boxes g ! j ! 2, height = boxes g ! j ! 3\<rparr>"

definition expected_rows :: "detection list \<Rightarrow> detection_record list" where
  "expected_rows ds = concat (map (\<lambda>g. map (row_at g) [0..<zipped g]) ds)"

text \<open>Every box that \<open>zip\<close> reaches has at least four numbers.\<close>

definition unpackable :: "detection \<Rightarrow> bool" where
  "unpackable g = (\<forall>b \<in> set (take (zipped g) (boxes g)). 4 \<le> length b)"


subsection \<open>The files the detector reads\<close>

text \<open>
  What \<open>cv2.imread\<close> finds at a path when the read is not refused: the decoded
  image of a file, \<open>None\<close> for a file that does not decode and for anything that is
  not a file.
\<close>

definition decoded :: "env \<Rightarrow> world \<Rightarrow> string \<Rightarrow> img option" where
  "decoded E w p =
     (case map_of (fs w) p of
        Some (File b) \<Rightarrow> imdecode E b
      | _ \<Rightarrow> None)"

text \<open>The calls of the fetcher for image \<open>i\<close>.\<close>

definition fetch_calls :: "env \<Rightarrow> string \<Rightarrow> string \<Rightarrow> nat \<Rightarrow> event list" where
  "fetch_calls E channel_url download_dir i =
     [HttpGet (channel_url @ ''/'' @ image_file i),
      OpenWrite (path_join download_dir (image_file i)),
      WriteBytes (path_join download_dir (image_file i))
        (content E (channel_url @ ''/'' @ image_file i))]"

subsection \<open>Sample environments and worlds\<close>

text \<open>
  A capability that finds one cream jar in every image and raises on \<open>None\<close>, and
  one that answers \<open>None\<close> with no detections.
\<close>

definition jar_model :: model where
  "jar_model im =
     (case im of
        None \<Rightarrow> Inl ValueError
      | Some b \<Rightarrow>
          Inr \<lparr>xywh0 = [[120.5, 64, 40, 30, 0.87, 0]], names0 = [''cream jar''],
               conf0 = [0.87]\<rparr>)"


text \<open>
  An environment that refuses nothing: every URL answers with its own text, and every
  non-empty file decodes.
\<close>

definition env_ok :: env where
  "env_ok =
     \<lparr>fault = (\<lambda>h ev. None),
      weights = (\<lambda>p. jar_model),
      content = (\<lambda>url. url),
      imdecode = (\<lambda>b. if b = [] then None else Some b)\<rparr>"

text \<open>The same with the weights file missing, and with the third download failing.\<close>

definition env_no_weights :: env where
  "env_no_weights =
     env_ok\<lparr>fault := (\<lambda>h ev. case ev of LoadWeights p \<Rightarrow> Some FileNotFoundError | _ \<Rightarrow> None)\<rparr>"


definition w_init :: world where
  "w_init = \<lparr>fs = [], conn_open = False, database = Map.empty, txn = None, trace = []\<rparr>"

definition w_ready :: world where
  "w_ready =
     \<lparr>fs = [], conn_open = True, database = [tn \<mapsto> \<lparr>seq = 0, rows = []\<rparr>], txn = None,
      trace = []\<rparr>"



definition jar :: "real list" where
  "jar = [120.5, 64, 40, 30, 0.87, 0]"



definition ds_ragged :: "detection list" where
  "ds_ragged =
     [\<lparr>image = ''a.jpg'', boxes = [jar, jar, [1]], labels = [''cream jar''],
       confidences = [0.87, 0.5]\<rparr>]"

section \<open>The result store\<close>

subsection \<open>Frame and trace of the insert loops\<close>

lemma insert_all_append:
  "insert_all (xs @ ys) d = (case insert_all xs d of Inl e \<Rightarrow> Inl e | Inr d' \<Rightarrow> insert_all ys d')"
  by (induction xs arbitrary: d) (auto split: sum.splits)

lemma conn_execute_cases:
  assumes "conn_execute E s w = (r, w')"
  shows "database w' = database w \<or> \<not> opens_transaction s"
    and "conn_open w' = conn_open w" and "fs w' = fs w"
    and "trace w' = trace w @ [Execute s]"
  using assms
  by (auto simp: conn_execute_def attempt_def split: option.splits sum.splits if_splits)

lemma conn_execute_insert_Inr:
  assumes "conn_execute E (InsertDetection r) w = (Inr u, w')"
  shows "apply_statement (InsertDetection r) (view w) = Inr (view w')"
    and "conn_open w'" and "txn w' \<noteq> None" and "database w' = database w"
  using assms
  by (auto simp: conn_execute_def attempt_def view_def split: option.splits sum.splits if_splits)

lemma store_rows_frame:
  "store_rows E im ts w = (r, w') \<Longrightarrow>
     database w' = database w \<and> conn_open w' = conn_open w \<and> fs w' = fs w"
proof (induction ts arbitrary: w)
  case Nil
  then show ?case by simp
next
  case (Cons t ts)
  show ?case
  proof (cases "record_of im t")
    case None
    with Cons.prems show ?thesis by simp
  next
    case (Some rc)
    obtain r1 w1 where ex: "conn_execute E (InsertDetection rc) w = (r1, w1)"
      by (cases "conn_execute E (InsertDetection rc) w")
    from conn_execute_cases[OF ex] have fr: "database w1 = database w" "conn_open w1 = conn_open w" "fs w1 = fs w"
      by simp_all
    show ?thesis
    proof (cases r1)
      case (Inl e)
      with Cons.prems Some ex fr show ?thesis by auto
    next
      case (Inr u)
      with Cons.prems Some ex have "store_rows E im ts w1 = (r, w')" by simp
      from Cons.IH[OF this] fr show ?thesis by simp
    qed
  qed
qed

lemma store_rows_Inr:
  "store_rows E im ts w = (Inr u, w') \<Longrightarrow>
     (\<forall>p \<in> set (map (record_of im) ts). p \<noteq> None) \<and>
     insert_all (map the (map (record_of im) ts)) (view w) = Inr (view w') \<and>
     trace w' = trace w @ inserts (map (record_of im) ts) \<and>
     (txn w' = None \<longrightarrow> w' = w)"
proof (induction ts arbitrary: w)
  case Nil
  then show ?case by (simp add: inserts_def)
next
  case (Cons t ts)
  from Cons.prems obtain rc where Some: "record_of im t = Some rc"
    by (cases "record_of im t") auto
  obtain r1 w1 where ex: "conn_execute E (InsertDetection rc) w = (r1, w1)"
    by (cases "conn_execute E (InsertDetection rc) w")
  from Cons.prems Some ex obtain u1 where r1: "r1 = Inr u1"
    by (cases r1) auto
  with Cons.prems Some ex have rest: "store_rows E im ts w1 = (Inr u, w')" by simp
  note ih = Cons.IH[OF rest]
  note a = conn_execute_insert_Inr[OF ex[unfolded r1]]
  note tr = conn_execute_cases(4)[OF ex]
  from store_rows_frame[OF rest] have "True" by simp
  have "txn w' \<noteq> None"
  proof
    assume "txn w' = None"
    with ih have "w' = w1" by simp
    with a(3) \<open>txn w' = None\<close> show False by simp
  qed
  then have last: "txn w' = None \<longrightarrow> w' = w" by blast
  from ih a tr Some have "(\<forall>p \<in> set (map (record_of im) (t # ts)). p \<noteq> None) \<and>
     insert_all (map the (map (record_of im) (t # ts))) (view w) = Inr (view w') \<and>
     trace w' = trace w @ inserts (map (record_of im) (t # ts))"
    by (simp add: inserts_def)
  with last show ?case by blast
qed

lemma store_rows_trace:
  "store_rows E im ts w = (r, w') \<Longrightarrow>
     \<exists>n. (\<forall>p \<in> set (take n (map (record_of im) ts)). p \<noteq> None) \<and>
         trace w' = trace w @ inserts (take n (map (record_of im) ts))"
proof (induction ts arbitrary: w)
  case Nil
  then show ?case by (simp add: inserts_def)
next
  case (Cons t ts)
  show ?case
  proof (cases "record_of im t")
    case None
    with Cons.prems have "trace w' = trace w" by simp
    then show ?thesis by (intro exI[of _ 0]) (simp add: inserts_def)
  next
    case (Some rc)
    obtain r1 w1 where ex: "conn_execute E (InsertDetection rc) w = (r1, w1)"
      by (cases "conn_execute E (InsertDetection rc) w")
    note tr = conn_execute_cases(4)[OF ex]
    show ?thesis
    proof (cases r1)
      case (Inl e)
      with Cons.prems Some ex have "w' = w1" by simp
      with tr Some show ?thesis by (intro exI[of _ 1]) (simp add: inserts_def)
    next
      case (Inr u)
      with Cons.prems Some ex have "store_rows E im ts w1 = (r, w')" by simp
      from Cons.IH[OF this] obtain n where
        n: "\<forall>p \<in> set (take n (map (record_of im) ts)). p \<noteq> None"
           "trace w' = trace w1 @ inserts (take n (map (record_of im) ts))" by blast
      with tr Some show ?thesis by (intro exI[of _ "Suc n"]) (simp add: inserts_def)
    qed
  qed
qed


lemma planned_Cons:
  "planned (g # gs) = map (record_of (image g)) (triples g) @ planned gs"
  by (simp add: planned_def)

lemma inserts_append: "inserts (xs @ ys) = inserts xs @ inserts ys"
  by (simp add: inserts_def)

lemma store_groups_frame:
  "store_groups E ds w = (r, w') \<Longrightarrow>
     database w' = database w \<and> conn_open w' = conn_open w \<and> fs w' = fs w"
proof (induction ds arbitrary: w)
  case Nil
  then show ?case by simp
next
  case (Cons g gs)
  obtain r1 w1 where g: "store_rows E (image g) (triples g) w = (r1, w1)"
    by (cases "store_rows E (image g) (triples g) w")
  note fr = store_rows_frame[OF g]
  show ?case
  proof (cases r1)
    case (Inl e)
    with Cons.prems g fr show ?thesis by auto
  next
    case (Inr u)
    with Cons.prems g have "store_groups E gs w1 = (r, w')" by simp
    from Cons.IH[OF this] fr show ?thesis by simp
  qed
qed

lemma store_groups_Inr:
  "store_groups E ds w = (Inr u, w') \<Longrightarrow>
     (\<forall>p \<in> set (planned ds). p \<noteq> None) \<and>
     insert_all (map the (planned ds)) (view w) = Inr (view w') \<and>
     trace w' = trace w @ inserts (planned ds) \<and>
     (txn w' = None \<longrightarrow> w' = w)"
proof (induction ds arbitrary: w)
  case Nil
  then show ?case by (simp add: planned_def inserts_def)
next
  case (Cons g gs)
  obtain r1 w1 where g: "store_rows E (image g) (triples g) w = (r1, w1)"
    by (cases "store_rows E (image g) (triples g) w")
  from Cons.prems g obtain u1 where r1: "r1 = Inr u1" by (cases r1) auto
  with Cons.prems g have rest: "store_groups E gs w1 = (Inr u, w')" by simp
  note ih = Cons.IH[OF rest]
  note a = store_rows_Inr[OF g[unfolded r1]]
  have last: "txn w' = None \<longrightarrow> w' = w"
  proof
    assume n: "txn w' = None"
    with ih have "w' = w1" by simp
    with n a show "w' = w" by simp
  qed
  from ih a have "(\<forall>p \<in> set (planned (g # gs)). p \<noteq> None) \<and>
     insert_all (map the (planned (g # gs))) (view w) = Inr (view w') \<and>
     trace w' = trace w @ inserts (planned (g # gs))"
    by (simp add: planned_Cons inserts_append insert_all_append ball_Un)
  with last show ?case by blast
qed

lemma store_groups_trace:
  "store_groups E ds w = (r, w') \<Longrightarrow>
     \<exists>n. (\<forall>p \<in> set (take n (planned ds)). p \<noteq> None) \<and>
         trace w' = trace w @ inserts (take n (planned ds))"
proof (induction ds arbitrary: w)
  case Nil
  then show ?case by (simp add: planned_def inserts_def)
next
  case (Cons g gs)
  let ?ps = "map (record_of (image g)) (triples g)"
  obtain r1 w1 where g: "store_rows E (image g) (triples g) w = (r1, w1)"
    by (cases "store_rows E (image g) (triples g) w")
  show ?case
  proof (cases r1)
    case (Inl e)
    with Cons.prems g have "w' = w1" by simp
    with store_rows_trace[OF g] obtain n where
      n: "\<forall>p \<in> set (take n ?ps). p \<noteq> None" "trace w' = trace w @ inserts (take n ?ps)"
      by blast
    have "take (min n (length ?ps)) (planned (g # gs)) = take n ?ps"
      by (simp add: planned_Cons min_def)
    with n show ?thesis by metis
  next
    case (Inr u)
    with Cons.prems g have rest: "store_groups E gs w1 = (r, w')" by simp
    from Cons.IH[OF rest] obtain n where
      n: "\<forall>p \<in> set (take n (planned gs)). p \<noteq> None"
         "trace w' = trace w1 @ inserts (take n (planned gs))" by blast
    note a = store_rows_Inr[OF g[unfolded Inr]]
    have "take (length ?ps + n) (planned (g # gs)) = ?ps @ take n (planned gs)"
      by (simp add: planned_Cons)
    moreover from a n have "\<forall>p \<in> set (?ps @ take n (planned gs)). p \<noteq> None"
      by auto
    moreover from a n have "trace w' = trace w @ inserts (?ps @ take n (planned gs))"
      by (simp add: inserts_append)
    ultimately show ?thesis by metis
  qed
qed




subsection \<open>The rows of a successful call\<close>

lemma take4_nth:
  assumes "4 \<le> length (b :: 'a list)"
  shows "take 4 b = [b ! 0, b ! 1, b ! 2, b ! 3]"
proof -
  from assms obtain x0 x1 x2 x3 rest where "b = x0 # x1 # x2 # x3 # rest"
    by (cases b; cases "tl b"; cases "tl (tl b)"; cases "tl (tl (tl b))") auto
  then show ?thesis by simp
qed

lemma length_triples: "length (triples g) = zipped g"
  by (simp add: triples_def zipped_def)

lemma triples_nth:
  "j < zipped g \<Longrightarrow> triples g ! j = (boxes g ! j, labels g ! j, confidences g ! j)"
  by (simp add: triples_def zipped_def)

lemma record_of_row_at:
  assumes "unpackable g" and "j < zipped g"
  shows "record_of (image g) (triples g ! j) = Some (row_at g j)"
proof -
  from assms(2) have "j < length (boxes g)" by (simp add: zipped_def)
  with assms(2) have "boxes g ! j \<in> set (take (zipped g) (boxes g))"
    by (metis in_set_conv_nth length_take min_less_iff_conj nth_take)
  with assms(1) have "4 \<le> length (boxes g ! j)" by (simp add: unpackable_def)
  from take4_nth[OF this] assms(2) show ?thesis
    by (simp add: triples_nth record_of_def row_at_def)
qed

lemma planned_group:
  assumes "unpackable g"
  shows "map (record_of (image g)) (triples g) = map Some (map (row_at g) [0..<zipped g])"
  by (rule nth_equalityI) (simp_all add: length_triples record_of_row_at[OF assms])

lemma planned_expected:
  "\<forall>g \<in> set ds. unpackable g \<Longrightarrow> planned ds = map Some (expected_rows ds)"
  by (induction ds) (simp_all add: planned_def expected_rows_def planned_group)

lemma length_expected_rows: "length (expected_rows ds) = sum_list (map zipped ds)"
  by (induction ds) (simp_all add: expected_rows_def)

lemma insert_all_table:
  "d tn = Some t \<Longrightarrow>
     \<exists>new. insert_all recs d = Inr (d(tn \<mapsto> \<lparr>seq = seq t + length new, rows = rows t @ new\<rparr>)) \<and>
           map snd new = recs"
proof (induction recs arbitrary: d t)
  case Nil
  then have "d(tn \<mapsto> \<lparr>seq = seq t + length ([] :: (nat \<times> detection_record) list), rows = rows t @ []\<rparr>) = d"
    by (simp add: fun_upd_idem)
  then show ?case by (intro exI[of _ "[]"]) simp
next
  case (Cons r recs)
  let ?t1 = "\<lparr>seq = Suc (seq t), rows = rows t @ [(Suc (seq t), r)]\<rparr>"
  let ?d1 = "d(tn \<mapsto> ?t1)"
  have "?d1 tn = Some ?t1" by simp
  from Cons.IH[of ?d1 ?t1] this obtain new where
    new: "insert_all recs ?d1 = Inr (?d1(tn \<mapsto> \<lparr>seq = seq ?t1 + length new, rows = rows ?t1 @ new\<rparr>))"
         "map snd new = recs" by blast
  let ?new = "(Suc (seq t), r) # new"
  from new Cons.prems
  have "insert_all (r # recs) d = Inr (d(tn \<mapsto> \<lparr>seq = seq t + length ?new, rows = rows t @ ?new\<rparr>))"
    by simp
  moreover from new have "map snd ?new = r # recs" by simp
  ultimately show ?case by (intro exI[of _ ?new] conjI)
qed

lemma conn_execute_insert_ok:
  assumes "db_accepts E" and "conn_open w" and "view w tn \<noteq> None"
  shows "\<exists>w'. conn_execute E (InsertDetection r) w = (Inr (), w') \<and> view w' tn \<noteq> None"
  using assms
  by (auto simp: conn_execute_def attempt_def db_accepts_def view_def split: option.splits)

lemma store_rows_ok:
  "db_accepts E \<Longrightarrow> conn_open w \<Longrightarrow> view w tn \<noteq> None \<Longrightarrow>
   \<forall>t \<in> set ts. record_of im t \<noteq> None \<Longrightarrow>
     \<exists>w'. store_rows E im ts w = (Inr (), w') \<and> view w' tn \<noteq> None"
proof (induction ts arbitrary: w)
  case Nil
  then show ?case by simp
next
  case (Cons t ts)
  from Cons.prems obtain rc where rc: "record_of im t = Some rc" by auto
  from conn_execute_insert_ok[OF Cons.prems(1-3)] obtain w1 where
    w1: "conn_execute E (InsertDetection rc) w = (Inr (), w1)" "view w1 tn \<noteq> None" by blast
  from conn_execute_cases(2)[OF w1(1)] Cons.prems have "conn_open w1" by simp
  from Cons.IH[OF Cons.prems(1) this w1(2)] Cons.prems(4) obtain w' where
    "store_rows E im ts w1 = (Inr (), w')" "view w' tn \<noteq> None" by auto
  with rc w1 show ?case by simp
qed

lemma store_groups_ok:
  "db_accepts E \<Longrightarrow> conn_open w \<Longrightarrow> view w tn \<noteq> None \<Longrightarrow>
   \<forall>p \<in> set (planned ds). p \<noteq> None \<Longrightarrow>
     \<exists>w'. store_groups E ds w = (Inr (), w') \<and> view w' tn \<noteq> None"
proof (induction ds arbitrary: w)
  case Nil
  then show ?case by simp
next
  case (Cons g gs)
  from Cons.prems(4) have "\<forall>t \<in> set (triples g). record_of (image g) t \<noteq> None"
    by (simp add: planned_Cons ball_Un)
  from store_rows_ok[OF Cons.prems(1-3) this] obtain w1 where
    w1: "store_rows E (image g) (triples g) w = (Inr (), w1)" "view w1 tn \<noteq> None" by blast
  from store_rows_frame[OF w1(1)] Cons.prems have "conn_open w1" by simp
  moreover from Cons.prems(4) have "\<forall>p \<in> set (planned gs). p \<noteq> None"
    by (simp add: planned_Cons ball_Un)
  ultimately obtain w' where "store_groups E gs w1 = (Inr (), w')" "view w' tn \<noteq> None"
    using Cons.IH[OF Cons.prems(1) _ w1(2)] by blast
  with w1 show ?case by simp
qed

lemma store_success:
  assumes "\<forall>g \<in> set ds. unpackable g" and "db_accepts E" and "conn_open w"
    and "view w tn = Some t"
  shows "\<exists>w' new. store_detection_results E ds w = (Inr (), w') \<and>
           database w' = (view w)(tn \<mapsto> \<lparr>seq = seq t + length new, rows = rows t @ new\<rparr>) \<and>
           map snd new = expected_rows ds"
proof -
  note pl = planned_expected[OF assms(1)]
  then have all: "\<forall>p \<in> set (planned ds). p \<noteq> None" by auto
  from assms(4) have "view w tn \<noteq> None" by simp
  from store_groups_ok[OF assms(2,3) this all] obtain w1 where
    w1: "store_groups E ds w = (Inr (), w1)" by blast
  note a = store_groups_Inr[OF w1]
  from store_groups_frame[OF w1] assms(3) have op: "conn_open w1" by simp
  from insert_all_table[of "view w" t "expected_rows ds"] assms(4) obtain new where
    new: "insert_all (expected_rows ds) (view w) =
            Inr ((view w)(tn \<mapsto> \<lparr>seq = seq t + length new, rows = rows t @ new\<rparr>))"
         "map snd new = expected_rows ds" by blast
  from a pl new have v1: "view w1 = (view w)(tn \<mapsto> \<lparr>seq = seq t + length new, rows = rows t @ new\<rparr>)"
    by (simp add: comp_def)
  from op assms(2) have "\<exists>w'. conn_commit E w1 = (Inr (), w') \<and> database w' = view w1"
    by (auto simp: conn_commit_def attempt_def db_accepts_def view_def split: option.splits)
  then obtain w' where "conn_commit E w1 = (Inr (), w')" "database w' = view w1" by blast
  with w1 v1 new(2) show ?thesis
    by (auto simp: store_detection_results_def)
qed


lemma db_accepts_env_ok: "db_accepts env_ok"
  by (simp add: db_accepts_def env_ok_def)

lemma view_w_ready: "view w_ready tn = Some \<lparr>seq = 0, rows = []\<rparr>"
  by (simp add: view_def w_ready_def)



text \<open>
  Claim C10.  Lists of unequal lengths raise nothing.  When every box that \<open>zip\<close>
  reaches has at least four numbers (the boxes, labels and confidences beyond the
  shortest list are never looked at), a call on an open connection that has the table,
  with a database engine that refuses nothing, returns and commits, for each
  detection, one row for each of the first \<open>m\<close> positions, \<open>m\<close> the least of the
  three lengths: row \<open>j\<close> is made of box \<open>j\<close>, label \<open>j\<close> and confidence \<open>j\<close>.
\<close>

theorem store_truncates_to_shortest:
  assumes "\<forall>g \<in> set ds. unpackable g"
    and "db_accepts E" and "conn_open w" and "view w tn = Some t"
  shows "\<exists>w' new. store_detection_results E ds w = (Inr (), w') \<and>
           database w' tn = Some \<lparr>seq = seq t + length new, rows = rows t @ new\<rparr> \<and>
           length new = sum_list (map zipped ds) \<and>
           map snd new = concat (map (\<lambda>g. map (row_at g) [0..<zipped g]) ds)"
proof -
  from store_success[OF assms] obtain w' new where
    st: "store_detection_results E ds w = (Inr (), w')"
        "database w' = (view w)(tn \<mapsto> \<lparr>seq = seq t + length new, rows = rows t @ new\<rparr>)"
        "map snd new = expected_rows ds" by blast
  from st(3) have "length new = sum_list (map zipped ds)"
    by (metis length_expected_rows length_map)
  with st show ?thesis by (simp add: expected_rows_def)
qed

text \<open>
  The theorem at a detection of three boxes, one label and two confidences, whose
  third box has a single number: one row is stored, the one of position 0.
\<close>

theorem store_truncates_to_shortest_witness:
  "fst (store_detection_results env_ok ds_ragged w_ready) = Inr () \<and>
   (\<exists>new. database (snd (store_detection_results env_ok ds_ragged w_ready)) tn =
             Some \<lparr>seq = length new, rows = new\<rparr> \<and>
           length new = 1 \<and>
           map snd new =
             [\<lparr>image_name = ''a.jpg'', label = ''cream jar'', confidence = 0.87,
               x_center = 120.5, y_center = 64, width = 40, height = 30\<rparr>])"
proof -
  have h1: "\<forall>g \<in> set ds_ragged. unpackable g"
    by (simp add: ds_ragged_def unpackable_def zipped_def jar_def)
  have h3: "conn_open w_ready" by (simp add: w_ready_def)
  from store_truncates_to_shortest[OF h1 db_accepts_env_ok h3 view_w_ready]
  obtain w' new where
    "store_detection_results env_ok ds_ragged w_ready = (Inr (), w')"
    "database w' tn = Some \<lparr>seq = seq \<lparr>seq = 0, rows = []\<rparr> + length new,
                             rows = rows \<lparr>seq = 0, rows = []\<rparr> @ new\<rparr>"
    "length new = sum_list (map zipped ds_ragged)"
    "map snd new = concat (map (\<lambda>g. map (row_at g) [0..<zipped g]) ds_ragged)" by blast
  then show ?thesis by (auto simp: ds_ragged_def zipped_def row_at_def jar_def)
qed

subsection \<open>The schema\<close>

lemma create_first:
  assumes "db_accepts E" and "conn_open w"
  shows "\<exists>w1. create_database_table E w = (Inr (), w1) \<and> conn_open w1 \<and> txn w1 = None \<and>
           fs w1 = fs w \<and>
           database w1 =
             (case view w tn of
                Some t \<Rightarrow> view w
              | None \<Rightarrow> (view w)(tn \<mapsto> \<lparr>seq = 0, rows = []\<rparr>))"
  using assms
  by (auto simp: create_database_table_def conn_execute_def conn_commit_def attempt_def
      db_accepts_def view_def split: option.splits)

lemma create_again:
  assumes "db_accepts E" and "conn_open w" and "txn w = None" and "database w tn = Some t"
  shows "create_database_table E w =
           (Inr (), w\<lparr>trace := trace w @ [Execute CreateTableIfNotExists]\<rparr>)"
  using assms
  by (simp add: create_database_table_def conn_execute_def conn_commit_def attempt_def
      db_accepts_def view_def)

text \<open>
  Claim C6.  On an open connection, with a database engine that refuses nothing, two
  calls of \<open>create_database_table\<close> in sequence both return.  After the first the
  committed database has a table \<open>object_detections\<close>: the one the connection saw
  before, or an empty one when it saw none; the other tables are as they were.  The
  second call changes nothing but the record of the calls made: the database, the
  table with its rows, the transaction state and the files are the same.  A table name
  stands for one table, so there is no second table of that name.
\<close>

theorem create_table_idempotent:
  assumes "db_accepts E" and "conn_open w"
  shows "\<exists>w1 t. create_database_table E w = (Inr (), w1) \<and>
           create_database_table E w1 =
             (Inr (), w1\<lparr>trace := trace w1 @ [Execute CreateTableIfNotExists]\<rparr>) \<and>
           database w1 tn = Some t \<and>
           t = (case view w tn of Some t0 \<Rightarrow> t0 | None \<Rightarrow> \<lparr>seq = 0, rows = []\<rparr>) \<and>
           database w1 = (view w)(tn \<mapsto> t)"
proof -
  from create_first[OF assms] obtain w1 where
    w1: "create_database_table E w = (Inr (), w1)" "conn_open w1" "txn w1 = None"
        "database w1 =
             (case view w tn of
                Some t \<Rightarrow> view w
              | None \<Rightarrow> (view w)(tn \<mapsto> \<lparr>seq = 0, rows = []\<rparr>))" by blast
  let ?t = "case view w tn of Some t0 \<Rightarrow> t0 | None \<Rightarrow> \<lparr>seq = 0, rows = []\<rparr>"
  from w1(4) have d: "database w1 = (view w)(tn \<mapsto> ?t)"
    by (auto split: option.splits)
  then have t: "database w1 tn = Some ?t" by simp
  from create_again[OF assms(1) w1(2,3) t] w1(1) d t show ?thesis by blast
qed

text \<open>The theorem on a fresh database file: the table is made once, empty.\<close>

theorem create_table_idempotent_witness:
  "fst (create_database_table env_ok (w_init\<lparr>conn_open := True\<rparr>)) = Inr () \<and>
   fst (create_database_table env_ok
          (snd (create_database_table env_ok (w_init\<lparr>conn_open := True\<rparr>)))) = Inr () \<and>
   database (snd (create_database_table env_ok (w_init\<lparr>conn_open := True\<rparr>))) tn =
     Some \<lparr>seq = 0, rows = []\<rparr> \<and>
   database (snd (create_database_table env_ok
          (snd (create_database_table env_ok (w_init\<lparr>conn_open := True\<rparr>))))) =
     database (snd (create_database_table env_ok (w_init\<lparr>conn_open := True\<rparr>)))"
proof -
  have h: "conn_open (w_init\<lparr>conn_open := True\<rparr>)" by simp
  have v: "view (w_init\<lparr>conn_open := True\<rparr>) tn = None"
    by (simp add: view_def w_init_def)
  from create_table_idempotent[OF db_accepts_env_ok h] v show ?thesis
    by auto
qed

section \<open>The image fetcher\<close>

subsection \<open>File names and paths\<close>

lemma str_nat_small: "n < 10 \<Longrightarrow> str_nat n = [digit n]"
  by (subst str_nat.simps) simp

lemma image_file_values:
  "image_file 0 = ''image_0.jpg''"
  "image_file 1 = ''image_1.jpg''"
  "image_file (Suc 0) = ''image_1.jpg''"
  "image_file 2 = ''image_2.jpg''"
  "image_file 3 = ''image_3.jpg''"
  "image_file 4 = ''image_4.jpg''"
  by (simp_all add: image_file_def str_nat_small digit_def)

lemma below_five: "i < 5 \<longleftrightarrow> i = 0 \<or> i = 1 \<or> i = 2 \<or> i = 3 \<or> i = (4::nat)"
  by auto

lemma image_file_head: "i < 5 \<Longrightarrow> \<exists>s. image_file i = CHR ''i'' # s"
  by (auto simp: below_five image_file_values)

lemma path_join_inj:
  assumes "b = CHR ''i'' # s" and "b' = CHR ''i'' # s'" and "path_join a b = path_join a b'"
  shows "b = b'"
  using assms by (auto simp: path_join_def split: if_splits)

lemma path_join_not_dir:
  assumes "b = CHR ''i'' # s"
  shows "path_join a b \<noteq> a"
  using assms by (auto simp: path_join_def)

lemma image_file_inj: "i < 5 \<Longrightarrow> j < 5 \<Longrightarrow> image_file i = image_file j \<Longrightarrow> i = j"
  by (auto simp: below_five image_file_values)

lemma image_path_inj:
  assumes "i < 5" and "j < 5"
    and "path_join d (image_file i) = path_join d (image_file j)"
  shows "i = j"
proof -
  from image_file_head[OF assms(1)] image_file_head[OF assms(2)] assms(3)
  have "image_file i = image_file j" by (auto dest: path_join_inj)
  with image_file_inj[OF assms(1,2)] show ?thesis by simp
qed

lemma map_of_upsert: "map_of (upsert k v xs) = (map_of xs)(k \<mapsto> v)"
  by (induction xs) (auto simp: fun_eq_iff)

subsection \<open>The calls of the fetcher\<close>

lemma requests_get_cases:
  assumes "requests_get E url w = (r, w')"
  shows "w' = w\<lparr>trace := trace w @ [HttpGet url]\<rparr>"
    and "r = (case fault E (trace w) (HttpGet url) of Some e \<Rightarrow> Inl e | None \<Rightarrow> Inr (content E url))"
  using assms by (auto simp: requests_get_def attempt_def split: option.splits)

lemma open_wb_cases:
  assumes "open_wb E p w = (r, w')"
  shows "database w' = database w" and "conn_open w' = conn_open w" and "txn w' = txn w"
    and "trace w' = trace w @ [OpenWrite p]"
    and "r = Inr u \<Longrightarrow> fs w' = upsert p (File []) (fs w)"
  using assms
  by (auto simp: open_wb_def attempt_def split: option.splits node.splits)

lemma file_write_cases:
  assumes "file_write E p b w = (r, w')"
  shows "database w' = database w" and "conn_open w' = conn_open w" and "txn w' = txn w"
    and "trace w' = trace w @ [WriteBytes p b]"
    and "r = Inr u \<Longrightarrow> fs w' = upsert p (File b) (fs w)"
  using assms
  by (auto simp: file_write_def attempt_def split: option.splits)

lemma os_makedirs_cases:
  assumes "os_makedirs E d w = (r, w')"
  shows "database w' = database w" and "conn_open w' = conn_open w" and "txn w' = txn w"
    and "trace w' = trace w @ [Makedirs d]"
    and "r = Inr u \<Longrightarrow> map_of (fs w') = (map_of (fs w))(d \<mapsto> Dir)"
  using assms
  by (auto simp: os_makedirs_def attempt_def fun_eq_iff map_add_def
      split: option.splits node.splits if_splits)

text \<open>One round of the loop that returns.\<close>

lemma download_round:
  assumes "requests_get E url w = (Inr b, w1)" and "open_wb E p w1 = (Inr u, w2)"
    and "file_write E p b w2 = (Inr v, w3)"
  shows "trace w3 = trace w @ [HttpGet url, OpenWrite p, WriteBytes p (content E url)]"
    and "map_of (fs w3) = (map_of (fs w))(p \<mapsto> File (content E url))"
    and "database w3 = database w" and "conn_open w3 = conn_open w" and "txn w3 = txn w"
proof -
  note g = requests_get_cases[OF assms(1)]
  from g(2) have b: "b = content E url" by (auto split: option.splits)
  note o = open_wb_cases[OF assms(2)]
  note f = file_write_cases[OF assms(3)]
  from g(1) o(4) f(4) b
  show "trace w3 = trace w @ [HttpGet url, OpenWrite p, WriteBytes p (content E url)]"
    by simp
  from g(1) o(5)[OF refl] f(5)[OF refl] b
  show "map_of (fs w3) = (map_of (fs w))(p \<mapsto> File (content E url))"
    by (simp add: map_of_upsert)
  from g(1) o f show "database w3 = database w" "conn_open w3 = conn_open w" "txn w3 = txn w"
    by simp_all
qed

lemma download_loop_Inr:
  "download_loop E url dir is w = (Inr u, w') \<Longrightarrow>
     trace w' = trace w @ concat (map (fetch_calls E url dir) is) \<and>
     (\<forall>q. q \<notin> (\<lambda>i. path_join dir (image_file i)) ` set is \<longrightarrow>
          map_of (fs w') q = map_of (fs w) q) \<and>
     (inj_on (\<lambda>i. path_join dir (image_file i)) (set is) \<longrightarrow>
        (\<forall>i \<in> set is. map_of (fs w') (path_join dir (image_file i)) =
                        Some (File (content E (url @ ''/'' @ image_file i)))))"
proof (induction "is" arbitrary: w)
  case Nil
  then show ?case by simp
next
  case (Cons i "is")
  define P where "P = (\<lambda>i. path_join dir (image_file i))"
  define V where "V = (\<lambda>i. File (content E (url @ ''/'' @ image_file i)))"
  let ?u = "url @ ''/'' @ image_file i"
  obtain r1 w1 where g: "requests_get E ?u w = (r1, w1)" by (cases "requests_get E ?u w")
  with Cons.prems obtain b where r1: "r1 = Inr b" by (cases r1) auto
  obtain r2 w2 where o: "open_wb E (P i) w1 = (r2, w2)" by (cases "open_wb E (P i) w1")
  with Cons.prems g r1 obtain u2 where r2: "r2 = Inr u2" by (cases r2) (auto simp: P_def)
  obtain r3 w3 where f: "file_write E (P i) b w2 = (r3, w3)"
    by (cases "file_write E (P i) b w2")
  with Cons.prems g r1 o r2 obtain u3 where r3: "r3 = Inr u3"
    by (cases r3) (auto simp: P_def)
  from Cons.prems g r1 o r2 f r3 have rest: "download_loop E url dir is w3 = (Inr u, w')"
    by (simp add: P_def)
  note rd = download_round[OF g[unfolded r1] o[unfolded r2] f[unfolded r3]]
  from rd(2) have fs3: "map_of (fs w3) = (map_of (fs w))(P i \<mapsto> V i)"
    by (simp add: V_def)
  from Cons.IH[OF rest] have
    ih1: "trace w' = trace w3 @ concat (map (fetch_calls E url dir) is)" and
    ih2: "\<forall>q. q \<notin> P ` set is \<longrightarrow> map_of (fs w') q = map_of (fs w3) q" and
    ih3: "inj_on P (set is) \<longrightarrow> (\<forall>k \<in> set is. map_of (fs w') (P k) = Some (V k))"
    by (simp_all add: P_def V_def)
  from ih1 rd(1) have t: "trace w' = trace w @ concat (map (fetch_calls E url dir) (i # is))"
    by (simp add: fetch_calls_def P_def)
  have a: "\<forall>q. q \<notin> P ` set (i # is) \<longrightarrow> map_of (fs w') q = map_of (fs w) q"
    using ih2 fs3 by auto
  have b: "inj_on P (set (i # is)) \<longrightarrow> (\<forall>k \<in> set (i # is). map_of (fs w') (P k) = Some (V k))"
  proof (intro impI ballI)
    fix k assume inj: "inj_on P (set (i # is))" and k: "k \<in> set (i # is)"
    from inj have inj': "inj_on P (set is)" by (simp add: inj_on_def)
    show "map_of (fs w') (P k) = Some (V k)"
    proof (cases "k \<in> set is")
      case True
      with ih3 inj' show ?thesis by simp
    next
      case False
      with k have ki: "k = i" by simp
      from False inj ki have "P i \<notin> P ` set is" by (auto simp: inj_on_def)
      with ih2 fs3 ki show ?thesis by simp
    qed
  qed
  from t a b show ?case unfolding P_def V_def by blast
qed

lemma download_success:
  assumes "download_images_from_telegram E url dir w = (Inr u, w')"
  shows "map_of (fs w') dir = Some Dir"
    and "\<forall>i<5. map_of (fs w') (path_join dir (image_file i)) =
               Some (File (content E (url @ ''/'' @ image_file i)))"
    and "\<forall>p. p \<noteq> dir \<and> (\<forall>i<5. p \<noteq> path_join dir (image_file i)) \<longrightarrow>
             map_of (fs w') p = map_of (fs w) p"
    and "trace w' = trace w @ Makedirs dir # concat (map (fetch_calls E url dir) [0..<5])"
proof -
  define P where "P = (\<lambda>i. path_join dir (image_file i))"
  obtain r1 w1 where m: "os_makedirs E dir w = (r1, w1)" by (cases "os_makedirs E dir w")
  with assms obtain u1 where r1: "r1 = Inr u1"
    by (cases r1) (auto simp: download_images_from_telegram_def)
  with assms m have lp: "download_loop E url dir [0..<5] w1 = (Inr u, w')"
    by (simp add: download_images_from_telegram_def)
  note mk = os_makedirs_cases[OF m]
  from mk(5)[OF r1] have fs1: "map_of (fs w1) = (map_of (fs w))(dir \<mapsto> Dir)" .
  from download_loop_Inr[OF lp] have
    l1: "trace w' = trace w1 @ concat (map (fetch_calls E url dir) [0..<5])" and
    l2: "\<forall>q. q \<notin> P ` set [0..<5] \<longrightarrow> map_of (fs w') q = map_of (fs w1) q" and
    l3: "inj_on P (set [0..<5]) \<longrightarrow>
           (\<forall>i \<in> set [0..<5]. map_of (fs w') (P i) =
              Some (File (content E (url @ ''/'' @ image_file i))))"
    unfolding P_def by blast+
  have inj: "inj_on P (set [0..<5])"
    by (auto simp: inj_on_def P_def dest: image_path_inj)
  have nd: "dir \<notin> P ` set [0..<5]"
  proof
    assume "dir \<in> P ` set [0..<5]"
    then obtain i where "i < 5" "P i = dir" by auto
    with image_file_head[of i] path_join_not_dir[of "image_file i" _ dir] show False
      by (auto simp: P_def)
  qed
  from nd l2 fs1 show "map_of (fs w') dir = Some Dir" by simp
  from l3 inj show "\<forall>i<5. map_of (fs w') (path_join dir (image_file i)) =
               Some (File (content E (url @ ''/'' @ image_file i)))"
    by (simp add: P_def)
  show "\<forall>p. p \<noteq> dir \<and> (\<forall>i<5. p \<noteq> path_join dir (image_file i)) \<longrightarrow>
             map_of (fs w') p = map_of (fs w) p"
  proof (intro allI impI)
    fix p assume p: "p \<noteq> dir \<and> (\<forall>i<5. p \<noteq> path_join dir (image_file i))"
    then have "p \<notin> P ` set [0..<5]" by (auto simp: P_def)
    with l2 fs1 p show "map_of (fs w') p = map_of (fs w) p" by simp
  qed
  from l1 mk(4) show "trace w' = trace w @ Makedirs dir # concat (map (fetch_calls E url dir) [0..<5])"
    by simp
qed
lemma upt_five: "[0..<5] = [0, 1, 2, 3, 4]"
  by (simp add: upt_rec)





subsection \<open>A fetch that fails\<close>

lemma get_urls_simps:
  "get_urls [] = []"
  "get_urls (HttpGet u # evs) = u # get_urls evs"
  "get_urls (OpenWrite p # evs) = get_urls evs"
  "get_urls (WriteBytes p b # evs) = get_urls evs"
  "get_urls (Makedirs d # evs) = get_urls evs"
  by (simp_all add: get_urls_def List.map_filter_simps)

lemma get_urls_append: "get_urls (xs @ ys) = get_urls xs @ get_urls ys"
  by (simp add: get_urls_def List.map_filter_def)

lemma download_loop_any:
  "download_loop E url dir is w = (r, w') \<Longrightarrow>
     \<exists>evs k. trace w' = trace w @ evs \<and> (\<forall>ev \<in> set evs. stage ev = 2) \<and>
       k \<le> length is \<and>
       get_urls evs = map (\<lambda>i. url @ ''/'' @ image_file i) (take k is) \<and>
       (\<forall>j \<in> set (take (k - 1) is). \<exists>h. fault E h (HttpGet (url @ ''/'' @ image_file j)) = None) \<and>
       database w' = database w \<and> conn_open w' = conn_open w \<and> txn w' = txn w"
proof (induction "is" arbitrary: w)
  case Nil
  then show ?case by (simp add: get_urls_simps)
next
  case (Cons i "is")
  define U where "U = (\<lambda>i. url @ ''/'' @ image_file i)"
  define P where "P = path_join dir (image_file i)"
  obtain r1 w1 where g: "requests_get E (U i) w = (r1, w1)" by (cases "requests_get E (U i) w")
  note gc = requests_get_cases[OF g]
  show ?case
  proof (cases r1)
    case (Inl e)
    with Cons.prems g have "r = Inl e" "w' = w1" by (simp_all add: U_def)
    with gc(1) have "trace w' = trace w @ [HttpGet (U i)]" "database w' = database w"
      "conn_open w' = conn_open w" "txn w' = txn w" by simp_all
    then show ?thesis
      unfolding U_def
      by (intro exI[of _ "[HttpGet (url @ ''/'' @ image_file i)]"] exI[of _ 1])
        (simp add: get_urls_simps)
  next
    case (Inr b)
    from gc(2) Inr have ok: "fault E (trace w) (HttpGet (U i)) = None"
      by (auto split: option.splits)
    obtain r2 w2 where o: "open_wb E P w1 = (r2, w2)" by (cases "open_wb E P w1")
    note oc = open_wb_cases[OF o]
    show ?thesis
    proof (cases r2)
      case (Inl e)
      with Cons.prems g \<open>r1 = Inr b\<close> o have "w' = w2" by (simp add: U_def P_def)
      with gc(1) oc have "trace w' = trace w @ [HttpGet (U i), OpenWrite P]"
        "database w' = database w" "conn_open w' = conn_open w" "txn w' = txn w" by simp_all
      then show ?thesis
        unfolding U_def
        by (intro exI[of _ "[HttpGet (url @ ''/'' @ image_file i), OpenWrite P]"] exI[of _ 1])
          (simp add: get_urls_simps)
    next
      case (Inr u2)
      obtain r3 w3 where f: "file_write E P b w2 = (r3, w3)" by (cases "file_write E P b w2")
      note fc = file_write_cases[OF f]
      from gc(1) oc fc have tr3: "trace w3 = trace w @ [HttpGet (U i), OpenWrite P, WriteBytes P b]"
        and fr3: "database w3 = database w" "conn_open w3 = conn_open w" "txn w3 = txn w"
        by simp_all
      show ?thesis
      proof (cases r3)
        case (Inl e)
        with Cons.prems g \<open>r1 = Inr b\<close> o \<open>r2 = Inr u2\<close> f have "w' = w3"
          by (simp add: U_def P_def)
        with tr3 fr3 show ?thesis
          unfolding U_def
          by (intro exI[of _ "[HttpGet (url @ ''/'' @ image_file i), OpenWrite P, WriteBytes P b]"]
              exI[of _ 1])
            (simp add: get_urls_simps)
      next
        case (Inr u3)
        with Cons.prems g \<open>r1 = Inr b\<close> o \<open>r2 = Inr u2\<close> f
        have rest: "download_loop E url dir is w3 = (r, w')" by (simp add: U_def P_def)
        from Cons.IH[OF rest] obtain evs k where
          ih: "trace w' = trace w3 @ evs" "\<forall>ev \<in> set evs. stage ev = 2" "k \<le> length is"
              "get_urls evs = map U (take k is)"
              "\<forall>j \<in> set (take (k - 1) is). \<exists>h. fault E h (HttpGet (U j)) = None"
              "database w' = database w3" "conn_open w' = conn_open w3" "txn w' = txn w3"
          unfolding U_def by blast
        let ?evs = "[HttpGet (U i), OpenWrite P, WriteBytes P b] @ evs"
        have 1: "trace w' = trace w @ ?evs" using ih(1) tr3 by simp
        have 2: "\<forall>ev \<in> set ?evs. stage ev = 2" using ih(2) by simp
        have 3: "Suc k \<le> length (i # is)" using ih(3) by simp
        have 4: "get_urls ?evs = map U (take (Suc k) (i # is))"
          using ih(4) by (simp add: get_urls_simps)
        have 5: "\<forall>j \<in> set (take (Suc k - 1) (i # is)). \<exists>h. fault E h (HttpGet (U j)) = None"
        proof (cases k)
          case 0
          then show ?thesis by simp
        next
          case (Suc k')
          with ih(5) ok show ?thesis by auto
        qed
        from 1 2 3 4 5 ih(6-8) fr3 show ?thesis
          unfolding U_def
          by (intro exI[of _ ?evs] exI[of _ "Suc k"]) (simp add: U_def)
      qed
    qed
  qed
qed


section \<open>The detector\<close>

lemma cv2_imread_cases:
  assumes "cv2_imread E p w = (im, w')"
  shows "w' = w\<lparr>trace := trace w @ [Imread p]\<rparr>"
    and "im = (case fault E (trace w) (Imread p) of Some e \<Rightarrow> None | None \<Rightarrow> decoded E w p)"
  using assms
  by (auto simp: cv2_imread_def attempt_def decoded_def split: option.splits node.splits)


text \<open>One round of the loop: the read and the call of the capability.\<close>

lemma detect_round:
  assumes "cv2_imread E p w = (im, w1)" and "call_model m im w1 = (r, w2)"
  shows "trace w2 = trace w @ [Imread p, Infer im]" and "fs w2 = fs w"
    and "database w2 = database w" and "conn_open w2 = conn_open w" and "txn w2 = txn w"
    and "r = m im"
  using assms cv2_imread_cases(1)[OF assms(1)]
  by (auto simp: call_model_def)

lemma detect_loop_frame:
  "detect_loop E m d ns acc w = (r, w') \<Longrightarrow>
     grows 3 w w' \<and> fs w' = fs w \<and> database w' = database w \<and>
     conn_open w' = conn_open w \<and> txn w' = txn w"
proof (induction ns arbitrary: acc w)
  case Nil
  then show ?case by (simp add: grows_def)
next
  case (Cons n ns)
  obtain im w1 where rd: "cv2_imread E (path_join d n) w = (im, w1)"
    by (cases "cv2_imread E (path_join d n) w")
  obtain r2 w2 where cl: "call_model m im w1 = (r2, w2)" by (cases "call_model m im w1")
  note dr = detect_round[OF rd cl]
  from dr(1) have g: "grows 3 w w2" by (auto simp: grows_def)
  show ?case
  proof (cases r2)
    case (Inl e)
    with Cons.prems rd cl have "w' = w2" by simp
    with g dr show ?thesis by simp
  next
    case (Inr res)
    with Cons.prems rd cl obtain acc' where "detect_loop E m d ns acc' w2 = (r, w')" by simp
    from Cons.IH[OF this] have "grows 3 w2 w'" and rest: "fs w' = fs w2" "database w' = database w2"
      "conn_open w' = conn_open w2" "txn w' = txn w2" by simp_all
    with g have "grows 3 w w'" by (auto simp: grows_def)
    with rest dr show ?thesis by simp
  qed
qed










section \<open>The driver\<close>

subsection \<open>What each stage calls and what it leaves alone\<close>

lemma grows_refl: "grows k w w"
  by (simp add: grows_def)

lemma grows_trans: "grows k w w1 \<Longrightarrow> grows k w1 w2 \<Longrightarrow> grows k w w2"
  by (auto simp: grows_def)

lemma grows_one: "trace w' = trace w @ [ev] \<Longrightarrow> stage ev = k \<Longrightarrow> grows k w w'"
  by (auto simp: grows_def)

lemma upto_stage_refl: "upto_stage k w w"
  by (simp add: upto_stage_def)

lemma upto_stage_step:
  assumes "upto_stage k w w1" and "grows k' w1 w2" and "k \<le> k'"
  shows "upto_stage k' w w2"
proof -
  from assms(1) obtain evs where
    a: "trace w1 = trace w @ evs" "sorted (map stage evs)" "\<forall>ev \<in> set evs. stage ev \<le> k"
    by (auto simp: upto_stage_def)
  from assms(2) obtain evs' where
    b: "trace w2 = trace w1 @ evs'" "\<forall>ev \<in> set evs'. stage ev = k'"
    by (auto simp: grows_def)
  from b(2) have "sorted (map stage evs')"
    by (induction evs') auto
  with a b assms(3) have "sorted (map stage (evs @ evs'))"
    by (fastforce simp: sorted_append)
  moreover from a b assms(3) have "\<forall>ev \<in> set (evs @ evs'). stage ev \<le> k'" by auto
  moreover from a b have "trace w2 = trace w @ evs @ evs'" by simp
  ultimately show ?thesis unfolding upto_stage_def by blast
qed

lemma upto_stage_emitted:
  assumes "upto_stage k w w'"
  shows "\<forall>ev \<in> set (emitted w w'). stage ev \<le> k" and "sorted (map stage (emitted w w'))"
    and "trace w' = trace w @ emitted w w'"
  using assms by (auto simp: upto_stage_def emitted_def)

lemma connect_stage:
  assumes "sqlite3_connect E p w = (r, w')"
  shows "grows 0 w w'" and "database w' = database w" and "fs w' = fs w"
    and "r = Inr u \<Longrightarrow> conn_open w'"
    and "fault E (trace w) (Connect p) = None \<Longrightarrow> r = Inr ()"
  using assms
  by (auto simp: sqlite3_connect_def attempt_def grows_def split: option.splits)

lemma setup_stage:
  assumes "setup_yolo_model E p w = (r, w')"
  shows "grows 1 w w'" and "database w' = database w" and "conn_open w' = conn_open w"
  using assms
  by (auto simp: setup_yolo_model_def attempt_def grows_def split: option.splits)

lemma download_stage:
  assumes "download_images_from_telegram E url dir w = (r, w')"
  shows "grows 2 w w'" and "database w' = database w" and "conn_open w' = conn_open w"
proof -
  obtain r1 w1 where m: "os_makedirs E dir w = (r1, w1)" by (cases "os_makedirs E dir w")
  note mk = os_makedirs_cases[OF m]
  from mk(4) have g1: "grows 2 w w1" by (rule grows_one) simp
  have "grows 2 w w' \<and> database w' = database w \<and> conn_open w' = conn_open w"
  proof (cases r1)
    case (Inl e)
    with assms m have "w' = w1" by (simp add: download_images_from_telegram_def)
    with g1 mk show ?thesis by simp
  next
    case (Inr u1)
    with assms m have lp: "download_loop E url dir [0..<5] w1 = (r, w')"
      by (simp add: download_images_from_telegram_def)
    from download_loop_any[OF lp] have "grows 2 w1 w'" "database w' = database w1"
      "conn_open w' = conn_open w1" by (auto simp: grows_def)
    with g1 mk show ?thesis by (auto intro: grows_trans)
  qed
  then show "grows 2 w w'" and "database w' = database w" and "conn_open w' = conn_open w"
    by simp_all
qed

lemma detect_stage:
  assumes "detect_objects_in_images E m d w = (r, w')"
  shows "grows 3 w w'" and "database w' = database w" and "conn_open w' = conn_open w"
proof -
  let ?w0 = "w\<lparr>trace := trace w @ [Glob d]\<rparr>"
  have g0: "grows 3 w ?w0" by (rule grows_one[of _ _ "Glob d"]) simp_all
  from assms have "detect_loop E m d (glob_jpg d (fs w)) [] ?w0 = (r, w')"
    by (simp add: detect_objects_in_images_def)
  from detect_loop_frame[OF this] g0
  show "grows 3 w w'" and "database w' = database w" and "conn_open w' = conn_open w"
    by (auto intro: grows_trans)
qed

lemma exit_raising_stage:
  assumes "exit_raising e w = (r, w')"
  shows "grows 4 w w'" and "conn_open w' = conn_open w" and "\<exists>e'. r = Inl e'"
  using assms
  by (auto simp: exit_raising_def conn_rollback_def grows_def split: option.splits if_splits)

lemma conn_commit_stage:
  assumes "conn_commit E w = (r, w')"
  shows "grows 4 w w'" and "conn_open w' = conn_open w"
  using assms
  by (auto simp: conn_commit_def conn_rollback_def attempt_def grows_def
      split: option.splits if_splits)

lemma create_stage:
  assumes "create_database_table E w = (r, w')"
  shows "grows 4 w w'" and "conn_open w' = conn_open w"
proof -
  obtain r1 w1 where x: "conn_execute E CreateTableIfNotExists w = (r1, w1)"
    by (cases "conn_execute E CreateTableIfNotExists w")
  note xc = conn_execute_cases[OF x]
  from xc(4) have g1: "grows 4 w w1" by (rule grows_one) simp
  have "grows 4 w1 w' \<and> conn_open w' = conn_open w1"
  proof (cases r1)
    case (Inl e)
    with assms x have "exit_raising e w1 = (r, w')" by (simp add: create_database_table_def)
    from exit_raising_stage(1,2)[OF this] show ?thesis by simp
  next
    case (Inr u)
    with assms x have "conn_commit E w1 = (r, w')" by (simp add: create_database_table_def)
    from conn_commit_stage[OF this] show ?thesis by simp
  qed
  with g1 xc(2) show "grows 4 w w'" and "conn_open w' = conn_open w"
    by (auto intro: grows_trans)
qed

lemma inserts_stage: "\<forall>ev \<in> set (inserts ps). stage ev = 4"
  by (auto simp: inserts_def)

lemma store_stage:
  assumes "store_detection_results E ds w = (r, w')"
  shows "grows 4 w w'" and "conn_open w' = conn_open w"
proof -
  obtain r1 w1 where g: "store_groups E ds w = (r1, w1)" by (cases "store_groups E ds w")
  from store_groups_trace[OF g] inserts_stage have g1: "grows 4 w w1"
    by (auto simp: grows_def)
  note fr = store_groups_frame[OF g]
  have "grows 4 w1 w' \<and> conn_open w' = conn_open w1"
  proof (cases r1)
    case (Inl e)
    with assms g have "exit_raising e w1 = (r, w')" by (simp add: store_detection_results_def)
    from exit_raising_stage(1,2)[OF this] show ?thesis by simp
  next
    case (Inr u)
    with assms g have "conn_commit E w1 = (r, w')" by (simp add: store_detection_results_def)
    from conn_commit_stage[OF this] show ?thesis by simp
  qed
  with g1 fr show "grows 4 w w'" and "conn_open w' = conn_open w"
    by (auto intro: grows_trans)
qed
lemma detected_fetched: "detected E w w4 \<Longrightarrow> \<exists>w3. fetched E w w3"
  unfolding detected_def fetched_def by blast

text \<open>
  The exit paths of \<open>main\<close>: a stage up to the fetcher raised; the detector raised;
  the result store raised; every stage returned and the connection was closed.
\<close>

lemma main_summary:
  assumes "main E w = (r, w')"
  shows "((\<exists>e. r = Inl e) \<and> upto_stage 2 w w' \<and> database w' = database w \<and>
            (fault E (trace w) (Connect ''detections.db'') = None \<longrightarrow> conn_open w')) \<or>
         ((\<exists>e. r = Inl e) \<and> upto_stage 3 w w' \<and> database w' = database w \<and>
            (\<exists>w3. fetched E w w3) \<and> conn_open w') \<or>
         ((\<exists>e. r = Inl e) \<and> upto_stage 4 w w' \<and> (\<exists>w4. detected E w w4) \<and> conn_open w') \<or>
         (r = Inr () \<and> (\<exists>w6. upto_stage 4 w w6 \<and> conn_open w6 \<and> w' = conn_close w6) \<and>
            (\<exists>w4. detected E w w4))"
proof -
  let ?A = "(\<exists>e. r = Inl e) \<and> upto_stage 2 w w' \<and> database w' = database w \<and>
            (fault E (trace w) (Connect ''detections.db'') = None \<longrightarrow> conn_open w')"
  obtain r1 w1 where c: "sqlite3_connect E ''detections.db'' w = (r1, w1)"
    by (cases "sqlite3_connect E ''detections.db'' w")
  note cs = connect_stage[OF c]
  from upto_stage_step[OF upto_stage_refl cs(1)] have s0: "upto_stage 0 w w1" by simp
  show ?thesis
  proof (cases r1)
    case (Inl e)
    with assms c have "r = Inl e" "w' = w1" by (simp_all add: main_def)
    moreover from cs(5) Inl have "fault E (trace w) (Connect ''detections.db'') \<noteq> None" by auto
    moreover from upto_stage_step[OF s0 grows_refl, of 2] have "upto_stage 2 w w1" by simp
    ultimately have ?A using cs(2) by auto
    then show ?thesis by blast
  next
    case (Inr u1)
    from cs(4)[OF Inr] have o1: "conn_open w1" .
    obtain r2 w2 where s: "setup_yolo_model E ''yolov5s.pt'' w1 = (r2, w2)"
      by (cases "setup_yolo_model E ''yolov5s.pt'' w1")
    note ss = setup_stage[OF s]
    from upto_stage_step[OF s0 ss(1)] have s1: "upto_stage 1 w w2" by simp
    from ss o1 cs have f2: "database w2 = database w" "conn_open w2" by simp_all
    show ?thesis
    proof (cases r2)
      case (Inl e)
      with assms c \<open>r1 = Inr u1\<close> s have "r = Inl e" "w' = w2" by (simp_all add: main_def)
      moreover from upto_stage_step[OF s1 grows_refl, of 2] have "upto_stage 2 w w2" by simp
      ultimately have ?A using f2 by simp
      then show ?thesis by blast
    next
      case (Inr m)
      obtain r3 w3 where
        d: "download_images_from_telegram E ''https://t.me/lobelia4cosmetics'' ''images'' w2
              = (r3, w3)"
        by (cases "download_images_from_telegram E ''https://t.me/lobelia4cosmetics''
                     ''images'' w2")
      note ds = download_stage[OF d]
      from upto_stage_step[OF s1 ds(1)] have s2: "upto_stage 2 w w3" by simp
      from ds f2 have f3: "database w3 = database w" "conn_open w3" by simp_all
      show ?thesis
      proof (cases r3)
        case (Inl e)
        with assms c \<open>r1 = Inr u1\<close> s \<open>r2 = Inr m\<close> d have "r = Inl e" "w' = w3"
          by (simp_all add: main_def)
        with s2 f3 have ?A by simp
        then show ?thesis by blast
      next
        case (Inr u3)
        from c \<open>r1 = Inr u1\<close> s \<open>r2 = Inr m\<close> d Inr have ft: "fetched E w w3"
          unfolding fetched_def by blast
        obtain r4 w4 where t: "detect_objects_in_images E m ''images'' w3 = (r4, w4)"
          by (cases "detect_objects_in_images E m ''images'' w3")
        note ts = detect_stage[OF t]
        from upto_stage_step[OF s2 ts(1)] have s3: "upto_stage 3 w w4" by simp
        from ts f3 have f4: "database w4 = database w" "conn_open w4" by simp_all
        show ?thesis
        proof (cases r4)
          case (Inl e)
          with assms c \<open>r1 = Inr u1\<close> s \<open>r2 = Inr m\<close> d \<open>r3 = Inr u3\<close> t
          have "r = Inl e" "w' = w4" by (simp_all add: main_def)
          with s3 f4 ft show ?thesis by blast
        next
          case (Inr detections)
          from c \<open>r1 = Inr u1\<close> s \<open>r2 = Inr m\<close> d \<open>r3 = Inr u3\<close> t Inr
          have dt: "detected E w w4" unfolding detected_def by blast
          obtain r5 w5 where k: "create_database_table E w4 = (r5, w5)"
            by (cases "create_database_table E w4")
          note ks = create_stage[OF k]
          from upto_stage_step[OF s3 ks(1)] have s4: "upto_stage 4 w w5" by simp
          from ks f4 have f5: "conn_open w5" by simp
          show ?thesis
          proof (cases r5)
            case (Inl e)
            with assms c \<open>r1 = Inr u1\<close> s \<open>r2 = Inr m\<close> d \<open>r3 = Inr u3\<close> t
              \<open>r4 = Inr detections\<close> k
            have "r = Inl e" "w' = w5" by (simp_all add: main_def)
            with s4 f5 dt show ?thesis by blast
          next
            case (Inr u5)
            obtain r6 w6 where p: "store_detection_results E detections w5 = (r6, w6)"
              by (cases "store_detection_results E detections w5")
            note ps = store_stage[OF p]
            from upto_stage_step[OF s4 ps(1)] have s5: "upto_stage 4 w w6" by simp
            from ps f5 have f6: "conn_open w6" by simp
            show ?thesis
            proof (cases r6)
              case (Inl e)
              with assms c \<open>r1 = Inr u1\<close> s \<open>r2 = Inr m\<close> d \<open>r3 = Inr u3\<close> t
                \<open>r4 = Inr detections\<close> k \<open>r5 = Inr u5\<close> p
              have "r = Inl e" "w' = w6" by (simp_all add: main_def)
              with s5 f6 dt show ?thesis by blast
            next
              case (Inr u6)
              with assms c \<open>r1 = Inr u1\<close> s \<open>r2 = Inr m\<close> d \<open>r3 = Inr u3\<close> t
                \<open>r4 = Inr detections\<close> k \<open>r5 = Inr u5\<close> p
              have "r = Inr ()" "w' = conn_close w6" by (simp_all add: main_def)
              with s5 f6 dt show ?thesis by blast
            qed
          qed
        qed
      qed
    qed
  qed
qed




text \<open>
  Claim C8.  In every run of the driver the calls are made in stage order: the
  connection, the model loader, the fetcher, the detector, the result store, the
  closing.  A call of the result store (a statement, a commit or a rollback) is made
  only in a run whose detector returned, and the committed database differs from the
  initial one only in such a run; a call of the detector (the enumeration, a read, the
  capability) is made only in a run whose fetcher returned, which then has left all
  five image files in place.
\<close>

theorem stages_in_order:
  assumes "main E w = (r, w')"
  shows "trace w' = trace w @ emitted w w' \<and> sorted (map stage (emitted w w')) \<and>
         ((\<exists>ev \<in> set (emitted w w'). stage ev = 4) \<longrightarrow> (\<exists>w4. detected E w w4)) \<and>
         (database w' \<noteq> database w \<longrightarrow> (\<exists>w4. detected E w w4)) \<and>
         ((\<exists>ev \<in> set (emitted w w'). stage ev = 3) \<longrightarrow>
            (\<exists>w3. fetched E w w3 \<and>
               (\<forall>i<5. \<exists>b. map_of (fs w3) (path_join ''images'' (image_file i)) = Some (File b))))"
proof -
  have files: "\<exists>w3. fetched E w w3 \<and>
      (\<forall>i<5. \<exists>b. map_of (fs w3) (path_join ''images'' (image_file i)) = Some (File b))"
    if "fetched E w w3" for w3
  proof -
    from that obtain w2 u3 where
      "download_images_from_telegram E ''https://t.me/lobelia4cosmetics'' ''images'' w2
         = (Inr u3, w3)" unfolding fetched_def by blast
    from download_success(2)[OF this] that show ?thesis by blast
  qed
  have up: "trace w' = trace w @ emitted w w' \<and> sorted (map stage (emitted w w')) \<and>
      (\<forall>ev \<in> set (emitted w w'). stage ev \<le> k)" if "upto_stage k w w'" for k
    using upto_stage_emitted[OF that] by simp
  from main_summary[OF assms] consider
      (early) "upto_stage 2 w w'" "database w' = database w"
    | (detect) w3 where "upto_stage 3 w w'" "database w' = database w" "fetched E w w3"
    | (store) w4 where "upto_stage 4 w w'" "detected E w w4"
    | (closed) w6 w4 where "upto_stage 4 w w6" "w' = conn_close w6" "detected E w w4"
    by blast
  then show ?thesis
  proof cases
    case early
    from up[OF early(1)] early(2) show ?thesis by fastforce
  next
    case detect
    from up[OF detect(1)] detect(2) files[OF detect(3)] show ?thesis by fastforce
  next
    case store
    from detected_fetched[OF store(2)] files obtain w3 where
      "fetched E w w3 \<and>
        (\<forall>i<5. \<exists>b. map_of (fs w3) (path_join ''images'' (image_file i)) = Some (File b))"
      by blast
    with up[OF store(1)] store(2) show ?thesis by blast
  next
    case closed
    have "grows 5 w6 w'" unfolding closed(2) by (rule grows_one[of _ _ Close]) (simp_all add: conn_close_def)
    from upto_stage_step[OF closed(1) this] have "upto_stage 5 w w'" by simp
    note u = up[OF this]
    from detected_fetched[OF closed(3)] files obtain w3 where
      "fetched E w w3 \<and>
        (\<forall>i<5. \<exists>b. map_of (fs w3) (path_join ''images'' (image_file i)) = Some (File b))"
      by blast
    with u closed(3) show ?thesis by blast
  qed
qed
lemmas run_defs =
  main_def sqlite3_connect_def setup_yolo_model_def download_images_from_telegram_def
  os_makedirs_def requests_get_def open_wb_def file_write_def upt_five image_file_values
  path_join_def detect_objects_in_images_def glob_jpg_def child_name_def endswith_def
  List.map_filter_simps cv2_imread_def call_model_def create_database_table_def
  conn_execute_def conn_commit_def conn_rollback_def exit_raising_def
  store_detection_results_def triples_def record_of_def view_def tn_def conn_close_def
  attempt_def

lemma main_ok_result: "fst (main env_ok w_init) = Inr ()"
  by (simp add: run_defs env_ok_def w_init_def jar_model_def)

lemma main_ok_stores:
  "Execute CreateTableIfNotExists \<in> set (emitted w_init (snd (main env_ok w_init)))"
  by (simp add: run_defs emitted_def env_ok_def w_init_def jar_model_def)

lemma main_ok_detects:
  "Glob ''images'' \<in> set (emitted w_init (snd (main env_ok w_init)))"
  by (simp add: run_defs emitted_def env_ok_def w_init_def jar_model_def)
text \<open>The theorem at a run in which every stage returns: the result store was called.\<close>

theorem stages_in_order_witness:
  "fst (main env_ok w_init) = Inr () \<and>
   sorted (map stage (emitted w_init (snd (main env_ok w_init)))) \<and>
   (\<exists>w4. detected env_ok w_init w4) \<and>
   (\<exists>w3. fetched env_ok w_init w3 \<and>
      (\<forall>i<5. \<exists>b. map_of (fs w3) (path_join ''images'' (image_file i)) = Some (File b)))"
proof -
  obtain r w' where run: "main env_ok w_init = (r, w')" by (cases "main env_ok w_init")
  from main_ok_stores run have "\<exists>ev \<in> set (emitted w_init w'). stage ev = 4"
    by (intro bexI[of _ "Execute CreateTableIfNotExists"]) simp_all
  with stages_in_order[OF run] obtain w4 where
    s: "sorted (map stage (emitted w_init w'))" "detected env_ok w_init w4" by blast
  from s(2) have "\<exists>ev \<in> set (emitted w_init w'). stage ev = 3 \<Longrightarrow>
      \<exists>w3. fetched env_ok w_init w3 \<and>
      (\<forall>i<5. \<exists>b. map_of (fs w3) (path_join ''images'' (image_file i)) = Some (File b))"
    using stages_in_order[OF run] by blast
  moreover from main_ok_detects run have "Glob ''images'' \<in> set (emitted w_init w')"
    by simp
  then have "\<exists>ev \<in> set (emitted w_init w'). stage ev = 3"
    by (intro bexI[of _ "Glob ''images''"]) simp_all
  ultimately have "\<exists>w3. fetched env_ok w_init w3 \<and>
      (\<forall>i<5. \<exists>b. map_of (fs w3) (path_join ''images'' (image_file i)) = Some (File b))"
    by blast
  with s run main_ok_result show ?thesis by auto
qed

text \<open>
  Claim C4, as stated, fails: with the weights file missing the model loader raises,
  the exception leaves \<open>main\<close>, and the connection opened on line 131 is still
  open; no call to close it was made.
\<close>

theorem connection_left_open_counterexample:
  "fst (main env_no_weights w_init) = Inl FileNotFoundError \<and>
   conn_open (snd (main env_no_weights w_init)) \<and>
   trace (snd (main env_no_weights w_init)) =
     [Connect ''detections.db'', LoadWeights ''yolov5s.pt'']"
  by (simp add: main_def sqlite3_connect_def setup_yolo_model_def attempt_def
      env_no_weights_def env_ok_def w_init_def)

text \<open>
  Claim C4, amended.  Once the connection is open, \<open>main\<close> closes it exactly on the
  path where every stage returned: there closing is the last call of the run and the
  only one of its kind.  On a path where a stage raised, \<open>main\<close> ends with that
  exception, has made no call to close, and the connection is open; the
  \<open>with connection:\<close> blocks of the result store end the transaction, not the
  connection.
\<close>

theorem connection_closed_on_success_only:
  assumes "main E w = (r, w')" and "fault E (trace w) (Connect ''detections.db'') = None"
  shows "(r = Inr () \<and> \<not> conn_open w' \<and>
            (\<exists>evs. emitted w w' = evs @ [Close] \<and> Close \<notin> set evs)) \<or>
         ((\<exists>e. r = Inl e) \<and> conn_open w' \<and> Close \<notin> set (emitted w w'))"
proof -
  have no_close: "Close \<notin> set (emitted w v)" if "upto_stage k w v" "k \<le> 4" for k v
  proof
    assume "Close \<in> set (emitted w v)"
    with upto_stage_emitted(1)[OF that(1)] have "stage Close \<le> k" by blast
    with that(2) show False by simp
  qed
  from main_summary[OF assms(1)] assms(2) consider
      (raised) k where "\<exists>e. r = Inl e" "upto_stage k w w'" "k \<le> 4" "conn_open w'"
    | (closed) w6 where "r = Inr ()" "upto_stage 4 w w6" "w' = conn_close w6"
    by fastforce
  then show ?thesis
  proof cases
    case raised
    with no_close[OF raised(2,3)] show ?thesis by blast
  next
    case closed
    from upto_stage_emitted(3)[OF closed(2)] closed(3)
    have "trace w' = trace w @ (emitted w w6 @ [Close])"
      by (simp add: conn_close_def)
    then have "emitted w w' = emitted w w6 @ [Close]"
      unfolding emitted_def[of w w'] by simp
    moreover from closed(3) have "\<not> conn_open w'" by (simp add: conn_close_def)
    ultimately show ?thesis using closed(1) no_close[OF closed(2)] by blast
  qed
qed

text \<open>The theorem at a run in which every stage returns: the connection is closed.\<close>

theorem connection_closed_on_success_only_witness:
  "fst (main env_ok w_init) = Inr () \<and> \<not> conn_open (snd (main env_ok w_init))"
proof -
  obtain r w' where run: "main env_ok w_init = (r, w')" by (cases "main env_ok w_init")
  have h: "fault env_ok (trace w_init) (Connect ''detections.db'') = None"
    by (simp add: env_ok_def)
  from main_ok_result run have "r = Inr ()" by simp
  with connection_closed_on_success_only[OF run h] run show ?thesis by auto
qed

end
